theory Spec2Isabelle
  imports Main "HOL-Library.Word" "HOL-Library.Sublist"
begin

section \<open>Values shared by the services\<close>

subsection \<open>Typed arrays\<close>

text \<open>
  The pixel data of a canvas (\<open>ImageData.data\<close>, a \<open>Uint8ClampedArray\<close>) is a flat array
  of bytes, four per pixel in the order R, G, B, A. Reading a typed array beyond its
  length gives \<open>undefined\<close>; storing beyond its length is ignored; an ordering comparison
  with \<open>undefined\<close> is false; storing \<open>undefined\<close> inside the array stores 0.
\<close>

type_synonym byte = "8 word"

definition rd :: "byte list \<Rightarrow> nat \<Rightarrow> byte option" where
  "rd xs i = (if i < length xs then Some (xs ! i) else None)"

definition wr :: "byte list \<Rightarrow> nat \<Rightarrow> byte option \<Rightarrow> byte list" where
  "wr xs i v = xs[i := (case v of None \<Rightarrow> 0 | Some b \<Rightarrow> b)]"

definition lt :: "byte option \<Rightarrow> byte \<Rightarrow> bool" where
  "lt v c = (case v of None \<Rightarrow> False | Some b \<Rightarrow> b < c)"

definition gt :: "byte option \<Rightarrow> byte \<Rightarrow> bool" where
  "gt v c = (case v of None \<Rightarrow> False | Some b \<Rightarrow> c < b)"

text \<open>
  The four samples R, G, B, A that start at index \<open>i\<close> of an RGBA array, and the pixel
  number \<open>p\<close> of the array.
\<close>

definition quad :: "byte list \<Rightarrow> nat \<Rightarrow> byte \<times> byte \<times> byte \<times> byte" where
  "quad xs i = (xs ! i, xs ! (i + 1), xs ! (i + 2), xs ! (i + 3))"

definition pixelAt :: "byte list \<Rightarrow> nat \<Rightarrow> byte \<times> byte \<times> byte \<times> byte" where
  "pixelAt xs p = quad xs (4 * p)"

subsection \<open>The store of array buffers\<close>

text \<open>
  Frames refer to their \<open>pixelBuffer\<close> (an \<open>ArrayBuffer\<close>) by reference, and
  \<open>new Uint8ClampedArray(buffer)\<close> is a view of that same buffer, not a copy. The store
  maps an address to the bytes of the buffer allocated there; a new buffer is allocated
  at the end of the store.
\<close>

type_synonym addr = nat
type_synonym store = "byte list list"

definition wrS :: "store \<Rightarrow> addr \<Rightarrow> nat \<Rightarrow> byte option \<Rightarrow> store" where
  "wrS s a i v = s[a := wr (s ! a) i v]"

definition alloc :: "store \<Rightarrow> byte list \<Rightarrow> store \<times> addr" where
  "alloc s bytes = (s @ [bytes], length s)"

subsection \<open>Numbers and errors\<close>

text \<open>
  A JavaScript \<open>number\<close> that need not be an integer (the frame rate, the zoom, scaled
  sizes and offsets) is a value of an unspecified type \<open>'n\<close>; the arithmetic on it is
  given by the operations below, which stand for IEEE 754 double arithmetic. Pixel
  counts, indices and canvas sizes are natural numbers.
\<close>

record 'n number_ops =
  mul :: "'n \<Rightarrow> 'n \<Rightarrow> 'n"
  quot :: "'n \<Rightarrow> 'n \<Rightarrow> 'n"
  sub :: "'n \<Rightarrow> 'n \<Rightarrow> 'n"
  mathRound :: "'n \<Rightarrow> 'n"
  num :: "nat \<Rightarrow> 'n"
  lit_0_85 :: "'n"

text \<open>A thrown value: the class of the exception and its \<open>message\<close>.\<close>

datatype error = Error string | TypeError string | DOMException string


text \<open>\<open>GeneratedFrame\<close> of \<open>types.ts\<close>; \<open>'b\<close> is the type of blobs.\<close>

record 'b GeneratedFrame =
  blob :: 'b
  dataUrl :: string
  index :: nat
  pixelBuffer :: "addr option"
  width :: "nat option"
  height :: "nat option"

text \<open>Truthiness of an optional number and of an optional string.\<close>

definition truthy :: "nat option \<Rightarrow> bool" where
  "truthy v = (case v of None \<Rightarrow> False | Some n \<Rightarrow> n \<noteq> 0)"

definition truthyS :: "string option \<Rightarrow> bool" where
  "truthyS v = (case v of None \<Rightarrow> False | Some s \<Rightarrow> s \<noteq> [])"

section \<open>GIF chroma keying (\<open>createGif\<close>)\<close>

text \<open>
  One turn of the loop \<open>for (let i = 0; i < originalBuffer.length; i += 4)\<close>.
  \<open>originalBuffer\<close> is the view of the frame's own buffer at address \<open>orig\<close>,
  \<open>newBuffer\<close> the array at address \<open>new\<close>. The four samples are read first, then the
  keyed pixel is stored.
\<close>

definition keyStep :: "store \<Rightarrow> addr \<Rightarrow> addr \<Rightarrow> nat \<Rightarrow> store" where
  "keyStep s orig new i =
     (let r = rd (s ! orig) i;
          g = rd (s ! orig) (i + 1);
          b = rd (s ! orig) (i + 2);
          a = rd (s ! orig) (i + 3)
      in if lt a 128
         then wrS (wrS (wrS (wrS s new i (Some 255)) new (i + 1) (Some 0)) new (i + 2) (Some 255))
                new (i + 3) (Some 255)
         else wrS (wrS (wrS (wrS s new i r) new (i + 1) g) new (i + 2) b) new (i + 3) (Some 255))"

function keyLoop :: "store \<Rightarrow> addr \<Rightarrow> addr \<Rightarrow> nat \<Rightarrow> store" where
  "keyLoop s orig new i =
     (if i < length (s ! orig)
      then keyLoop (keyStep s orig new i) orig new (i + 4)
      else s)"
  by pat_completeness auto
termination
proof (relation "measure (\<lambda>(s, orig, new, i). length (s ! orig) - i)")
  show "wf (measure (\<lambda>(s, orig, new, i). length (s ! orig) - i))"
    by simp
next
  fix s :: store and orig new i :: nat
  have len: "length (wrS t a j v ! orig) = length (t ! orig)" for t a j v
    by (cases "a < length t"; cases "a = orig") (simp_all add: wrS_def wr_def not_less list_update_beyond)
  assume "i < length (s ! orig)"
  moreover have "length (keyStep s orig new i ! orig) = length (s ! orig)"
    by (simp add: keyStep_def Let_def len)
  ultimately show "((keyStep s orig new i, orig, new, i + 4), (s, orig, new, i))
      \<in> measure (\<lambda>(s, orig, new, i). length (s ! orig) - i)"
    by simp
qed

declare keyLoop.simps [simp del]

text \<open>
  The body of \<open>for (const frame of frames)\<close> for a frame with a pixel buffer at
  \<open>orig\<close>: \<open>new Uint8ClampedArray(originalBuffer.length)\<close> allocates a fresh array of
  zeros of the same length, and the loop fills it. The result is the store and the
  address of \<open>newBuffer\<close>.
\<close>

definition magentaKey :: "store \<Rightarrow> addr \<Rightarrow> store \<times> addr" where
  "magentaKey s orig =
     (let (s1, new) = alloc s (replicate (length (s ! orig)) 0)
      in (keyLoop s1 orig new 0, new))"

section \<open>Remote frame generator (\<open>services/gemini\<close>)\<close>

text \<open>
  What the remote call answers, as far as \<open>generateSingleFrame\<close> looks at it:
  \<open>response.candidates?.[0]\<close> is an optional candidate with its optional
  \<open>finishReason\<close> and its optional first part \<open>content?.parts?.[0]\<close>; a part has an
  optional \<open>text\<close> and an optional \<open>inlineData\<close> with optional \<open>data\<close> and
  \<open>mimeType\<close>.
\<close>

datatype inline_data = InlineData "string option" "string option"
datatype part = Part "string option" "inline_data option"
datatype candidate = Candidate "string option" "part option"

text \<open>
  The collaborators of the generator: the configured key \<open>process.env.API_KEY\<close>; the
  remote call \<open>ai.models.generateContent\<close>, which gets the reference image, its MIME
  type and the prompt built from the action text, the frame index and the total, and
  either rejects with an error or answers; \<open>atob\<close>, which throws on input that is not
  base64; and \<open>URL.createObjectURL\<close> on the blob made of the decoded bytes and the MIME
  type. \<open>'u\<close> is the type of object URLs.
\<close>

record 'u gemini_env =
  API_KEY :: "string option"
  generateContent :: "string \<Rightarrow> string \<Rightarrow> string \<Rightarrow> nat \<Rightarrow> nat \<Rightarrow> error + candidate option"
  atob :: "string \<Rightarrow> error + string"
  blobUrl :: "string \<Rightarrow> string \<Rightarrow> 'u"

definition stopped :: "string option \<Rightarrow> string option" where
  "stopped finishReason =
     (case finishReason of
        None \<Rightarrow> None
      | Some r \<Rightarrow> if r \<noteq> [] \<and> r \<noteq> ''STOP'' then Some r else None)"

definition imagePart :: "'u gemini_env \<Rightarrow> part option \<Rightarrow> error + 'u" where
  "imagePart env p =
     (case p of
        None \<Rightarrow> Inl (Error ''No image data generated.'')
      | Some (Part text inlineData) \<Rightarrow>
          if truthyS text
          then Inl (Error (''Model Refusal: '' @ take 100 (case text of Some t \<Rightarrow> t | None \<Rightarrow> [])
                           @ ''...''))
          else (case inlineData of
                  None \<Rightarrow> Inl (Error ''No image data generated.'')
                | Some (InlineData d mimeType) \<Rightarrow>
                    (case d of
                       None \<Rightarrow> Inl (Error ''No image data generated.'')
                     | Some base64Image \<Rightarrow>
                         if base64Image = [] then Inl (Error ''No image data generated.'')
                         else let resultMime =
                                    (case mimeType of
                                       None \<Rightarrow> ''image/png''
                                     | Some m \<Rightarrow> if m = [] then ''image/png'' else m)
                              in (case atob env base64Image of
                                    Inl e \<Rightarrow> Inl e
                                  | Inr byteCharacters \<Rightarrow>
                                      Inr (blobUrl env byteCharacters resultMime)))))"

definition generateSingleFrame ::
  "'u gemini_env \<Rightarrow> string \<Rightarrow> string \<Rightarrow> string \<Rightarrow> nat \<Rightarrow> nat \<Rightarrow> error + 'u" where
  "generateSingleFrame env imageBase64 mimeType prompt index' total' =
     (if \<not> truthyS (API_KEY env)
      then Inl (Error ''API Key not found. Please select an API Key.'')
      else (case generateContent env imageBase64 mimeType prompt index' total' of
              Inl e \<Rightarrow> Inl e
            | Inr None \<Rightarrow> Inl (Error ''Gemini API returned no candidates.'')
            | Inr (Some (Candidate finishReason p)) \<Rightarrow>
                (case stopped finishReason of
                   Some r \<Rightarrow> Inl (Error (''Model stopped generation: '' @ r))
                 | None \<Rightarrow> imagePart env p)))"

text \<open>
  \<open>Promise.all\<close> over a batch: the results in the order of the batch when every request
  succeeds, a rejection when one fails. Which reason wins when several requests of a
  batch fail depends on the order in which they settle; here it is the one of the
  lowest frame index.
\<close>

fun promiseAll :: "(error + 'a) list \<Rightarrow> error + 'a list" where
  "promiseAll [] = Inr []"
| "promiseAll (r # rs) =
     (case r of
        Inl e \<Rightarrow> Inl e
      | Inr v \<Rightarrow> (case promiseAll rs of Inl e \<Rightarrow> Inl e | Inr vs \<Rightarrow> Inr (v # vs)))"

text \<open>
  The optional \<open>AbortSignal\<close>: \<open>signal?.aborted\<close> is read at the batch boundaries only,
  and what it holds is decided outside. A signal is the sequence of values the reads
  give, \<open>sig k\<close> for the \<open>k\<close>-th read (counted from 0).
\<close>

definition pollAborted :: "(nat \<Rightarrow> bool) option \<Rightarrow> nat \<Rightarrow> bool" where
  "pollAborted signal k = (case signal of None \<Rightarrow> False | Some sig \<Rightarrow> sig k)"

definition abortError :: error where
  "abortError = Error ''Generation aborted by user.''"

text \<open>
  What the generator does, in order: \<open>Poll v\<close> is a read of the signal that gave \<open>v\<close>,
  \<open>Request j\<close> the call of \<open>generateSingleFrame\<close> for frame \<open>j\<close>.
\<close>

datatype event = Poll bool | Request nat

text \<open>
  The loop \<open>for (let i = 0; i < count; i += batchSize)\<close> of \<open>generateAnimationFrames\<close>
  with \<open>batchSize = 3\<close>; \<open>k\<close> counts the reads of the signal, \<open>urls\<close> and \<open>tr\<close> are the
  URLs and the events so far. The staggered start of the requests of a batch only
  delays them and is left out.
\<close>

function batches ::
  "'u gemini_env \<Rightarrow> (nat \<Rightarrow> bool) option \<Rightarrow> string \<Rightarrow> string \<Rightarrow> string \<Rightarrow> nat \<Rightarrow>
   nat \<Rightarrow> nat \<Rightarrow> 'u list \<Rightarrow> event list \<Rightarrow> event list \<times> (error + 'u list)" where
  "batches env signal imageBase64 mimeType prompt count i k urls tr =
     (if i < count
      then if pollAborted signal k
           then (tr @ [Poll True], Inl abortError)
           else let js = [i ..< min (i + 3) count];
                    tr1 = tr @ [Poll False] @ map Request js
                in (case promiseAll
                          (map (\<lambda>j. generateSingleFrame env imageBase64 mimeType prompt j count) js) of
                      Inl e \<Rightarrow> (tr1, Inl e)
                    | Inr batchResults \<Rightarrow>
                        if pollAborted signal (k + 1)
                        then (tr1 @ [Poll True], Inl abortError)
                        else batches env signal imageBase64 mimeType prompt count (i + 3) (k + 2)
                               (urls @ batchResults) (tr1 @ [Poll False]))
      else (tr, Inr urls))"
  by pat_completeness auto
termination
  by (relation "measure (\<lambda>(env, signal, imageBase64, mimeType, prompt, count, i, k, urls, tr).
        count - i)") auto

declare batches.simps [simp del]

definition generateAnimationFrames ::
  "'u gemini_env \<Rightarrow> string \<Rightarrow> string \<Rightarrow> string \<Rightarrow> nat \<Rightarrow> (nat \<Rightarrow> bool) option \<Rightarrow>
   event list \<times> (error + 'u list)" where
  "generateAnimationFrames env imageBase64 mimeType prompt count signal =
     batches env signal imageBase64 mimeType prompt count 0 0 [] []"



section \<open>Frame normalizer (\<open>services/videoProcessor\<close>)\<close>

text \<open>
  A decoded image as \<open>processFrameData\<close> sees it: its natural size and the RGBA data
  that \<open>getImageData\<close> gives once the image is drawn on a canvas of that size, which
  holds \<open>4 * naturalWidth * naturalHeight\<close> bytes, row by row.
\<close>

record image =
  naturalWidth :: nat
  naturalHeight :: nat
  pixels :: "byte list"

definition wellFormed :: "image \<Rightarrow> bool" where
  "wellFormed img = (length (pixels img) = 4 * naturalWidth img * naturalHeight img)"

text \<open>The variables of the scan: the pixel data and the bounds found so far.\<close>

record scan =
  data :: "byte list"
  minX :: nat
  minY :: nat
  maxX :: nat
  maxY :: nat
  foundPixel :: bool

text \<open>
  One turn of \<open>for (let i = 0; i < data.length; i += 4)\<close> on a canvas \<open>cw\<close> wide and
  \<open>ch\<close> high. The margins are \<open>Math.floor(canvas.width * 0.05)\<close> and
  \<open>Math.floor(canvas.height * 0.05)\<close>: for a size below \<open>2^50\<close> the double product,
  rounded down, is the size divided by 20. As \<open>i\<close> is a multiple of 4, \<open>i / 4\<close> is
  the number of the pixel, \<open>x\<close> its column and \<open>y\<close> its row.
\<close>

definition scanStep :: "nat \<Rightarrow> nat \<Rightarrow> nat \<Rightarrow> scan \<Rightarrow> scan" where
  "scanStep cw ch i s =
     (let threshold = 240;
          marginX = cw div 20;
          marginY = ch div 20;
          x = (i div 4) mod cw;
          y = (i div 4) div cw
      in if x < marginX \<or> x > cw - marginX \<or> y < marginY \<or> y > ch - marginY
         then s\<lparr>data := wr (data s) (i + 3) (Some 0)\<rparr>
         else let r = rd (data s) i;
                  g = rd (data s) (i + 1);
                  b = rd (data s) (i + 2)
              in if gt r threshold \<and> gt g threshold \<and> gt b threshold
                 then s\<lparr>data := wr (data s) (i + 3) (Some 0)\<rparr>
                 else if gt (rd (data s) (i + 3)) 20
                      then s\<lparr>minX := (if x < minX s then x else minX s),
                             maxX := (if x > maxX s then x else maxX s),
                             minY := (if y < minY s then y else minY s),
                             maxY := (if y > maxY s then y else maxY s),
                             foundPixel := True\<rparr>
                      else s)"

function scanLoop :: "nat \<Rightarrow> nat \<Rightarrow> nat \<Rightarrow> scan \<Rightarrow> scan" where
  "scanLoop cw ch i s =
     (if i < length (data s) then scanLoop cw ch (i + 4) (scanStep cw ch i s) else s)"
  by pat_completeness auto
termination
proof (relation "measure (\<lambda>(cw, ch, i, s). length (data s) - i)")
  show "wf (measure (\<lambda>(cw, ch, i, s). length (data s) - i))"
    by simp
next
  fix cw ch i :: nat and s :: scan
  assume "i < length (data s)"
  moreover have "length (data (scanStep cw ch i s)) = length (data s)"
    by (simp add: scanStep_def Let_def wr_def)
  ultimately show "((cw, ch, i + 4, scanStep cw ch i s), (cw, ch, i, s))
      \<in> measure (\<lambda>(cw, ch, i, s). length (data s) - i)"
    by simp
qed

declare scanLoop.simps [simp del]

text \<open>
  The temporary canvas \<open>charCanvas\<close>: it is \<open>cropWidth\<close> wide and \<open>cropHeight\<close> high and
  holds the rectangle of that size at \<open>(cropX, cropY)\<close> of the cleaned canvas, that is,
  the columns \<open>cropX \<le> x < cropX + cropWidth\<close> of the rows
  \<open>cropY \<le> y < cropY + cropHeight\<close>.
\<close>

record crop =
  cleaned :: "byte list"
  canvasWidth :: nat
  canvasHeight :: nat
  cropX :: nat
  cropY :: nat
  cropWidth :: nat
  cropHeight :: nat

text \<open>The result \<open>{ image: charCanvas, width: charWidth, height: charHeight }\<close>.\<close>

record processed =
  charCanvas :: crop
  charWidth :: nat
  charHeight :: nat

text \<open>
  The drawing \<open>drawImage(image, 0, 0, width, height, destX, destY, drawW, drawH)\<close> on the
  final canvas.
\<close>

record 'n draw =
  src :: crop
  sWidth :: nat
  sHeight :: nat
  dx :: 'n
  dy :: 'n
  dWidth :: 'n
  dHeight :: 'n

text \<open>
  The browser, as the normalizer uses it: whether a canvas of a given size has a 2D
  context; loading the image behind a URL (\<open>None\<close> is \<open>onerror\<close>); the pixel data
  \<open>getImageData\<close> reads from a transparent canvas of a given size after one drawing;
  \<open>toBlob\<close> of such a canvas, which may give \<open>null\<close>; \<open>URL.createObjectURL\<close>.
  These are the failures the code provides for (a missing context, a load error, a
  \<open>null\<close> blob); a canvas call that raises an exception, which the handler does not
  catch, is not part of the model.
\<close>

record ('u, 'n, 'b) canvas_env =
  context2d :: "nat \<Rightarrow> nat \<Rightarrow> bool"
  loadImage :: "'u \<Rightarrow> image option"
  drawImage :: "nat \<Rightarrow> nat \<Rightarrow> 'n draw \<Rightarrow> byte list"
  toBlob :: "nat \<Rightarrow> nat \<Rightarrow> byte list \<Rightarrow> 'b option"
  createObjectURL :: "'b \<Rightarrow> string"

text \<open>\<open>processFrameData\<close>; its parameters \<open>targetWidth\<close> and \<open>targetHeight\<close> are not used.\<close>

definition processFrameData :: "('u, 'n, 'b) canvas_env \<Rightarrow> image \<Rightarrow> processed option" where
  "processFrameData env img =
     (let cw = naturalWidth img; ch = naturalHeight img
      in if \<not> context2d env cw ch then None
         else let s = scanLoop cw ch 0
                        \<lparr>data = pixels img, minX = cw, minY = ch, maxX = 0, maxY = 0,
                         foundPixel = False\<rparr>
              in if \<not> foundPixel s then None
                 else let charWidth = maxX s - minX s;
                          charHeight = maxY s - minY s
                      in if \<not> context2d env charWidth charHeight then None
                         else Some \<lparr>charCanvas =
                                      \<lparr>cleaned = data s, canvasWidth = cw, canvasHeight = ch,
                                       cropX = minX s, cropY = minY s,
                                       cropWidth = charWidth, cropHeight = charHeight\<rparr>,
                                    charWidth = charWidth, charHeight = charHeight\<rparr>)"

text \<open>Scale normalization and centering, from \<open>baseScale\<close> to \<open>destY\<close>.\<close>

definition placeFrame :: "'n number_ops \<Rightarrow> nat \<Rightarrow> nat \<Rightarrow> 'n \<Rightarrow> processed \<Rightarrow> 'n draw" where
  "placeFrame ops targetWidth targetHeight zoom p =
     (let baseScale = lit_0_85 ops;
          targetCharHeight = mul ops (mul ops (num ops targetHeight) baseScale) zoom;
          scale = quot ops targetCharHeight (num ops (charHeight p));
          drawW = mul ops (num ops (charWidth p)) scale;
          drawH = mul ops (num ops (charHeight p)) scale;
          destX = quot ops (sub ops (num ops targetWidth) drawW) (num ops 2);
          destY = quot ops (sub ops (num ops targetHeight) drawH) (num ops 2)
      in \<lparr>src = charCanvas p, sWidth = charWidth p, sHeight = charHeight p,
          dx = destX, dy = destY, dWidth = drawW, dHeight = drawH\<rparr>)"

text \<open>
  The handler \<open>img.onload\<close> for the image of frame \<open>i\<close>: it adds at most one frame to
  \<open>frames\<close>; the pixel data read from the final canvas lives in a buffer of its own.
\<close>

definition onload ::
  "('u, 'n, 'b) canvas_env \<Rightarrow> 'n number_ops \<Rightarrow> nat \<Rightarrow> nat \<Rightarrow> 'n \<Rightarrow> nat \<Rightarrow> image \<Rightarrow>
   store \<Rightarrow> 'b GeneratedFrame list \<Rightarrow> store \<times> 'b GeneratedFrame list" where
  "onload env ops targetWidth targetHeight zoom i img s frames =
     (case processFrameData env img of
        None \<Rightarrow> (s, frames)
      | Some p \<Rightarrow>
          if \<not> context2d env targetWidth targetHeight then (s, frames)
          else let pixelData = drawImage env targetWidth targetHeight
                                 (placeFrame ops targetWidth targetHeight zoom p);
                   (s1, buffer) = alloc s pixelData
               in (case toBlob env targetWidth targetHeight pixelData of
                     None \<Rightarrow> (s1, frames)
                   | Some b \<Rightarrow>
                       (s1, frames @ [\<lparr>blob = b, dataUrl = createObjectURL env b, index = i,
                                       pixelBuffer = Some buffer, width = Some targetWidth,
                                       height = Some targetHeight\<rparr>])))"

text \<open>
  The loop \<open>for (let i = 0; i < imageUrls.length; i++)\<close> from index \<open>i\<close> on, over the
  URLs that are left; a URL that fails to load is skipped.
\<close>

fun framesFrom ::
  "('u, 'n, 'b) canvas_env \<Rightarrow> 'n number_ops \<Rightarrow> nat \<Rightarrow> nat \<Rightarrow> 'n \<Rightarrow> nat \<Rightarrow> 'u list \<Rightarrow>
   store \<Rightarrow> 'b GeneratedFrame list \<Rightarrow> store \<times> 'b GeneratedFrame list" where
  "framesFrom env ops targetWidth targetHeight zoom i [] s frames = (s, frames)"
| "framesFrom env ops targetWidth targetHeight zoom i (url # urls) s frames =
     (case loadImage env url of
        None \<Rightarrow> framesFrom env ops targetWidth targetHeight zoom (i + 1) urls s frames
      | Some img \<Rightarrow>
          (case onload env ops targetWidth targetHeight zoom i img s frames of
             (s1, frames1) \<Rightarrow>
               framesFrom env ops targetWidth targetHeight zoom (i + 1) urls s1 frames1))"

definition processGeneratedFrames ::
  "('u, 'n, 'b) canvas_env \<Rightarrow> 'n number_ops \<Rightarrow> store \<Rightarrow> 'u list \<Rightarrow> nat \<Rightarrow> nat \<Rightarrow> 'n \<Rightarrow>
   store \<times> 'b GeneratedFrame list" where
  "processGeneratedFrames env ops s imageUrls targetWidth targetHeight zoom =
     framesFrom env ops targetWidth targetHeight zoom 0 imageUrls s []"

text \<open>
  The pixels that the first test of the scan clears, in terms of the pixel number \<open>p\<close>
  with \<open>x = p mod cw\<close> and \<open>y = p div cw\<close>: the test
  \<open>x < marginX || x > canvas.width - marginX || y < marginY || y > canvas.height - marginY\<close>.
\<close>

definition safetyCropped :: "nat \<Rightarrow> nat \<Rightarrow> nat \<Rightarrow> bool" where
  "safetyCropped cw ch p =
     (p mod cw < cw div 20 \<or> p mod cw > cw - cw div 20 \<or>
      p div cw < ch div 20 \<or> p div cw > ch - ch div 20)"

text \<open>
  The border in the words of the specification, the pixels within 5% of the width or
  the height from any edge: the first and the last \<open>floor (0.05 * width)\<close> columns and
  the first and the last \<open>floor (0.05 * height)\<close> rows. It is not taken from the test of
  the scan, which clears one column less on the right and one row less at the bottom.
\<close>

definition edgePixel :: "nat \<Rightarrow> nat \<Rightarrow> nat \<Rightarrow> bool" where
  "edgePixel cw ch p =
     (p mod cw < cw div 20 \<or> cw - cw div 20 \<le> p mod cw \<or>
      p div cw < ch div 20 \<or> ch - ch div 20 \<le> p div cw)"

text \<open>
  A pixel that background removal clears; an image in which every pixel is such a
  pixel, unless it lies in the border and the scan clears it there; and the test of the
  scan on the samples at index \<open>j\<close> of the data.
\<close>

definition background :: "byte \<times> byte \<times> byte \<times> byte \<Rightarrow> bool" where
  "background px = (case px of (r, g, b, a) \<Rightarrow> 240 < r \<and> 240 < g \<and> 240 < b)"

definition blank :: "image \<Rightarrow> bool" where
  "blank img =
     list_all (\<lambda>p. background (pixelAt (pixels img) p) \<or>
                    (edgePixel (naturalWidth img) (naturalHeight img) p \<and>
                     safetyCropped (naturalWidth img) (naturalHeight img) p))
       [0 ..< naturalWidth img * naturalHeight img]"

definition cleared :: "nat \<Rightarrow> nat \<Rightarrow> byte list \<Rightarrow> nat \<Rightarrow> bool" where
  "cleared cw ch d j =
     (safetyCropped cw ch (j div 4) \<or>
      (gt (rd d j) 240 \<and> gt (rd d (j + 1)) 240 \<and> gt (rd d (j + 2)) 240))"

text \<open>
  Whether the URL of a slot gives a frame: its image loads, \<open>processFrameData\<close> does
  not return \<open>null\<close>, the final canvas has a context and \<open>toBlob\<close> gives a blob.
\<close>

definition kept ::
  "('u, 'n, 'b) canvas_env \<Rightarrow> 'n number_ops \<Rightarrow> nat \<Rightarrow> nat \<Rightarrow> 'n \<Rightarrow> 'u \<Rightarrow> bool" where
  "kept env ops targetWidth targetHeight zoom url =
     (case loadImage env url of
        None \<Rightarrow> False
      | Some img \<Rightarrow>
          (case processFrameData env img of
             None \<Rightarrow> False
           | Some p \<Rightarrow>
               context2d env targetWidth targetHeight \<and>
               toBlob env targetWidth targetHeight
                 (drawImage env targetWidth targetHeight
                    (placeFrame ops targetWidth targetHeight zoom p)) \<noteq> None))"

text \<open>
  The pixel data the normalizer draws for a URL, if its image loads and is not dropped;
  and what a frame made from the URL at index \<open>i\<close> looks like in a store: it carries
  the index and the target size, and its buffer holds that pixel data.
\<close>

definition rendered ::
  "('u, 'n, 'b) canvas_env \<Rightarrow> 'n number_ops \<Rightarrow> nat \<Rightarrow> nat \<Rightarrow> 'n \<Rightarrow> 'u \<Rightarrow> byte list option" where
  "rendered env ops targetWidth targetHeight zoom url =
     (case loadImage env url of
        None \<Rightarrow> None
      | Some img \<Rightarrow>
          (case processFrameData env img of
             None \<Rightarrow> None
           | Some p \<Rightarrow>
               Some (drawImage env targetWidth targetHeight
                       (placeFrame ops targetWidth targetHeight zoom p))))"

definition frameOf ::
  "('u, 'n, 'b) canvas_env \<Rightarrow> 'n number_ops \<Rightarrow> nat \<Rightarrow> nat \<Rightarrow> 'n \<Rightarrow> store \<Rightarrow> nat \<Rightarrow> 'u \<Rightarrow>
   'b GeneratedFrame \<Rightarrow> bool" where
  "frameOf env ops targetWidth targetHeight zoom s i url frame =
     (index frame = i \<and> width frame = Some targetWidth \<and> height frame = Some targetHeight \<and>
      (case pixelBuffer frame of
         None \<Rightarrow> False
       | Some a \<Rightarrow> a < length s \<and>
           rendered env ops targetWidth targetHeight zoom url = Some (s ! a)))"

section \<open>Encoders (\<open>services/videoProcessor\<close>)\<close>

text \<open>The configuration object handed to \<open>new window.GIF\<close>.\<close>

record gifConfig =
  workers :: nat
  quality :: nat
  gifWidth :: "nat option"
  gifHeight :: "nat option"
  workerScript :: string
  transparent :: nat

text \<open>
  The libraries loaded by script tags, each absent (\<open>None\<close>) or present:
  \<open>UPNG.encode(buffers, width, height, 0, delays)\<close>, which may throw; the GIF encoder,
  which gets the configuration and the added frames (pixel data, width, height, delay)
  and hands the finished blob to the \<open>finished\<close> handler; the archive writer, which gets
  the folder name and the named files and whose \<open>generateAsync\<close> may reject. The worker
  script of the GIF encoder is fetched from the network.
\<close>

record ('n, 'b) encoder_env =
  UPNG :: "(byte list list \<Rightarrow> nat \<Rightarrow> nat \<Rightarrow> nat \<Rightarrow> 'n list \<Rightarrow> 'b option) option"
  GIF :: "(gifConfig \<Rightarrow> (byte list \<times> nat \<times> nat \<times> 'n) list \<Rightarrow> 'b) option"
  JSZip :: "(string \<Rightarrow> (string \<times> 'b) list \<Rightarrow> error + 'b) option"
  fetchWorker :: "error + string"

text \<open>\<open>frames[0].width || 0\<close> and the buffers pushed by \<open>if (frame.pixelBuffer)\<close>.\<close>

definition orZero :: "nat option \<Rightarrow> nat" where
  "orZero v = (case v of None \<Rightarrow> 0 | Some n \<Rightarrow> n)"

definition frameBuffers :: "'b GeneratedFrame list \<Rightarrow> addr list" where
  "frameBuffers frames = concat (map (\<lambda>frame. case pixelBuffer frame of None \<Rightarrow> [] | Some a \<Rightarrow> [a]) frames)"

definition createApng ::
  "('n, 'b) encoder_env \<Rightarrow> 'n number_ops \<Rightarrow> store \<Rightarrow> 'b GeneratedFrame list \<Rightarrow> 'n \<Rightarrow> error + 'b" where
  "createApng env ops s frames fps =
     (case UPNG env of
        None \<Rightarrow> Inl (Error ''UPNG library not loaded'')
      | Some encode \<Rightarrow>
          (case frames of
             [] \<Rightarrow> Inl (Error ''No frames to encode'')
           | frame0 # _ \<Rightarrow>
               let buffers = frameBuffers frames;
                   delay = mathRound ops (quot ops (num ops 1000) fps);
                   delays = replicate (length buffers) delay
               in (case encode (map (\<lambda>a. s ! a) buffers) (orZero (width frame0))
                          (orZero (height frame0)) 0 delays of
                     None \<Rightarrow> Inl (Error ''Failed to encode APNG.'')
                   | Some apngBuffer \<Rightarrow> Inr apngBuffer)))"

text \<open>
  The loop \<open>for (const frame of frames)\<close> of \<open>createGif\<close>: a frame with a pixel buffer
  and a width and a height other than 0 is keyed into a new buffer, which is added
  with the delay \<open>1000 / fps\<close>; any other frame is passed over.
\<close>

fun addFrames ::
  "'n number_ops \<Rightarrow> store \<Rightarrow> 'b GeneratedFrame list \<Rightarrow> 'n \<Rightarrow> store \<times> (addr \<times> nat \<times> nat \<times> 'n) list" where
  "addFrames ops s [] fps = (s, [])"
| "addFrames ops s (frame # frames) fps =
     (case pixelBuffer frame of
        None \<Rightarrow> addFrames ops s frames fps
      | Some orig \<Rightarrow>
          if truthy (width frame) \<and> truthy (height frame)
          then (case magentaKey s orig of
                  (s1, newBuffer) \<Rightarrow>
                    (case addFrames ops s1 frames fps of
                       (s2, added) \<Rightarrow>
                         (s2, (newBuffer, orZero (width frame), orZero (height frame),
                               quot ops (num ops 1000) fps) # added)))
          else addFrames ops s frames fps)"

text \<open>What chroma keying is to make of a pixel \<open>(r, g, b, a)\<close>.\<close>

definition keyedPixel :: "byte \<times> byte \<times> byte \<times> byte \<Rightarrow> byte \<times> byte \<times> byte \<times> byte" where
  "keyedPixel px =
     (case px of (r, g, b, a) \<Rightarrow> if a < 128 then (255, 0, 255, 255) else (r, g, b, 255))"

text \<open>
  The frames the GIF encoder gets from \<open>addFrame\<close>: the bytes of each new buffer with
  the width, the height and the delay.
\<close>

definition gifFrames ::
  "'n number_ops \<Rightarrow> store \<Rightarrow> 'b GeneratedFrame list \<Rightarrow> 'n \<Rightarrow> (byte list \<times> nat \<times> nat \<times> 'n) list" where
  "gifFrames ops s frames fps =
     (case addFrames ops s frames fps of
        (s1, added) \<Rightarrow> map (\<lambda>(a, w, h, d). (s1 ! a, w, h, d)) added)"

text \<open>
  \<open>createGif\<close>. With no frames, reading \<open>frames[0].width\<close> for the configuration
  throws a \<open>TypeError\<close> (the wording of its message is the engine's), which is caught
  and rejects the promise, as a failed fetch of the worker script does.
\<close>

definition createGif ::
  "('n, 'b) encoder_env \<Rightarrow> 'n number_ops \<Rightarrow> store \<Rightarrow> 'b GeneratedFrame list \<Rightarrow> 'n \<Rightarrow>
   store \<times> (error + 'b)" where
  "createGif env ops s frames fps =
     (case GIF env of
        None \<Rightarrow> (s, Inl (Error ''GIF.js library not loaded''))
      | Some render \<Rightarrow>
          (case fetchWorker env of
             Inl e \<Rightarrow> (s, Inl e)
           | Inr workerBlobText \<Rightarrow>
               (case frames of
                  [] \<Rightarrow> (s, Inl (TypeError ''Cannot read properties of undefined''))
                | frame0 # _ \<Rightarrow>
                    let gifCfg = \<lparr>workers = 2, quality = 10, gifWidth = width frame0,
                                  gifHeight = height frame0, workerScript = workerBlobText,
                                  transparent = 0xFF00FF\<rparr>
                    in (fst (addFrames ops s frames fps),
                        Inr (render gifCfg (gifFrames ops s frames fps))))))"

text \<open>
  The frames that \<open>createGif\<close> keys, those that pass
  \<open>frame.pixelBuffer && frame.width && frame.height\<close>; the address of a frame's buffer;
  and the condition that the buffers of all frames are allocated in the store.
\<close>

definition keyable :: "'b GeneratedFrame \<Rightarrow> bool" where
  "keyable frame = (pixelBuffer frame \<noteq> None \<and> truthy (width frame) \<and> truthy (height frame))"

definition bufferOf :: "'b GeneratedFrame \<Rightarrow> addr" where
  "bufferOf frame = (case pixelBuffer frame of None \<Rightarrow> 0 | Some a \<Rightarrow> a)"

definition buffersIn :: "store \<Rightarrow> 'b GeneratedFrame list \<Rightarrow> bool" where
  "buffersIn s frames =
     list_all (\<lambda>frame. case pixelBuffer frame of None \<Rightarrow> True | Some a \<Rightarrow> a < length s) frames"

text \<open>Decimal digits of a number, \<open>padStart(2, '0')\<close>, and the file name of a frame.\<close>

function toString :: "nat \<Rightarrow> string" where
  "toString n = (if n < 10 then [''0123456789'' ! n]
                 else toString (n div 10) @ [''0123456789'' ! (n mod 10)])"
  by pat_completeness auto
termination
  by (relation "measure (\<lambda>n. n)") auto

declare toString.simps [simp del]

definition padStart2 :: "string \<Rightarrow> string" where
  "padStart2 str = replicate (2 - length str) (CHR ''0'') @ str"

definition fileName :: "nat \<Rightarrow> string" where
  "fileName idx = ''frame_'' @ padStart2 (toString (idx + 1)) @ ''.png''"

text \<open>
  \<open>createZip\<close>: the folder \<open>frames\<close> is created, every frame's blob is put in it under
  its file name, and the archive is generated.
\<close>

definition createZip :: "('n, 'b) encoder_env \<Rightarrow> 'b GeneratedFrame list \<Rightarrow> error + 'b" where
  "createZip env frames =
     (case JSZip env of
        None \<Rightarrow> Inl (Error ''JSZip library not loaded'')
      | Some generateAsync \<Rightarrow>
          generateAsync ''frames''
            (map (\<lambda>(idx, frame). (fileName idx, blob frame)) (enumerate 0 frames)))"

section \<open>Example values\<close>

text \<open>
  Concrete collaborators and inputs, on which the theorems below are instantiated:
  number operations on the natural numbers, the pixel data of a transparent and an
  opaque pixel, a frame of two pixels whose buffer is at address 0, and encoders that
  hand back what they are given.
\<close>

definition natOps :: "nat number_ops" where
  "natOps = \<lparr>mul = (*), quot = (div), sub = (-), mathRound = id, num = id, lit_0_85 = 1\<rparr>"

definition twoPixelData :: "byte list" where
  "twoPixelData = [1, 2, 3, 127, 250, 250, 250, 128]"

definition twoPixels :: "unit GeneratedFrame" where
  "twoPixels = \<lparr>blob = (), dataUrl = [], index = 0, pixelBuffer = Some 0,
                 width = Some 2, height = Some 1\<rparr>"

definition echoEnv :: "(nat, byte list list) encoder_env" where
  "echoEnv = \<lparr>UPNG = Some (\<lambda>buffers w h cnum delays. Some buffers),
              GIF = Some (\<lambda>cfg added. map fst added),
              JSZip = Some (\<lambda>folder files. Inr (concat (map snd files))),
              fetchWorker = Inr ''worker''\<rparr>"

definition twoPixelsB :: "byte list list GeneratedFrame" where
  "twoPixelsB = \<lparr>blob = [], dataUrl = [], index = 0, pixelBuffer = Some 0,
                 width = Some 2, height = Some 1\<rparr>"

text \<open>
  A browser whose canvases always have a context, whose URLs are the images themselves,
  and whose final canvas reads as transparent; images of one colour; black-on-white
  images given by a bitmap; a 4 by 4 image with a 2 by 2 block of ink; a 3 by 3 image
  with one row of ink; a white image followed by a black one; a white image between two
  black ones; and two white images 20 wide and 1 high with one pixel of ink, in the
  first column and in the last.
\<close>

definition plainCanvas :: "(image, nat, byte list) canvas_env" where
  "plainCanvas = \<lparr>context2d = (\<lambda>w h. True), loadImage = Some,
                  drawImage = (\<lambda>tw th d. replicate (4 * tw * th) 0),
                  toBlob = (\<lambda>tw th px. Some px), createObjectURL = (\<lambda>b. ''blob:'')\<rparr>"

definition uniform :: "nat \<Rightarrow> nat \<Rightarrow> byte \<Rightarrow> byte \<Rightarrow> byte \<Rightarrow> byte \<Rightarrow> image" where
  "uniform w h r g b a =
     \<lparr>naturalWidth = w, naturalHeight = h, pixels = concat (replicate (w * h) [r, g, b, a])\<rparr>"

definition ink :: "bool \<Rightarrow> byte list" where
  "ink b = (if b then [0, 0, 0, 255] else [255, 255, 255, 255])"

definition bitmap :: "nat \<Rightarrow> nat \<Rightarrow> bool list \<Rightarrow> image" where
  "bitmap w h bits = \<lparr>naturalWidth = w, naturalHeight = h, pixels = concat (map ink bits)\<rparr>"

definition block4 :: image where
  "block4 = bitmap 4 4 [False, False, False, False,
                        False, True, True, False,
                        False, True, True, False,
                        False, False, False, False]"

definition row3 :: image where
  "row3 = bitmap 3 3 [False, False, False, True, True, True, False, False, False]"

definition twoUrls :: "image list" where
  "twoUrls = [uniform 2 2 250 250 250 255, uniform 2 2 0 0 0 255]"

definition threeUrls :: "image list" where
  "threeUrls = [uniform 2 2 0 0 0 255, uniform 2 2 250 250 250 255, uniform 2 2 0 0 0 255]"

definition inkAtLeftBorder :: image where
  "inkAtLeftBorder = bitmap 20 1 (True # replicate 19 False)"

definition inkAtRightBorder :: image where
  "inkAtRightBorder = bitmap 20 1 (replicate 19 False @ [True])"


definition refusingEnv :: "string gemini_env" where
  "refusingEnv =
     \<lparr>API_KEY = Some ''key'',
      generateContent = (\<lambda>imageBase64 mimeType prompt j n.
         if j = 4 then Inr (Some (Candidate (Some ''SAFETY'') None))
         else Inr (Some (Candidate (Some ''STOP'')
                (Some (Part None (Some (InlineData (Some ''QUJD'') None))))))),
      atob = Inr,
      blobUrl = (\<lambda>bytes mimeType. bytes)\<rparr>"



section \<open>GIF chroma keying: the keyed pixels and the original buffers\<close>

lemma length_wrS: "length (wrS s a i v) = length s"
  by (simp add: wrS_def)

lemma wrS_other: "a' \<noteq> a \<Longrightarrow> wrS s a i v ! a' = s ! a'"
  by (simp add: wrS_def)

lemma wrS_same: "a < length s \<Longrightarrow> wrS s a i v ! a = wr (s ! a) i v"
  by (simp add: wrS_def)

lemma length_keyStep: "length (keyStep s orig new i) = length s"
  by (simp add: keyStep_def Let_def length_wrS)

lemma keyStep_other: "a \<noteq> new \<Longrightarrow> keyStep s orig new i ! a = s ! a"
  by (simp add: keyStep_def Let_def wrS_other)

lemma length_keyLoop: "length (keyLoop s orig new i) = length s"
proof (induction s orig new i rule: keyLoop.induct)
  case (1 s orig new i)
  then show ?case by (subst keyLoop.simps) (simp add: length_keyStep)
qed

lemma keyLoop_other: "a \<noteq> new \<Longrightarrow> keyLoop s orig new i ! a = s ! a"
proof (induction s orig new i rule: keyLoop.induct)
  case (1 s orig new i)
  then show ?case by (subst keyLoop.simps) (simp add: keyStep_other)
qed

lemma keyStep_new:
  "new < length s \<Longrightarrow> orig \<noteq> new \<Longrightarrow>
   keyStep s orig new i ! new =
     (if lt (rd (s ! orig) (i + 3)) 128
      then wr (wr (wr (wr (s ! new) i (Some 255)) (i + 1) (Some 0)) (i + 2) (Some 255))
                (i + 3) (Some 255)
      else wr (wr (wr (wr (s ! new) i (rd (s ! orig) i)) (i + 1) (rd (s ! orig) (i + 1)))
                (i + 2) (rd (s ! orig) (i + 2))) (i + 3) (Some 255))"
  by (simp add: keyStep_def Let_def wrS_same wrS_other length_wrS)

lemma length_keyStep_new:
  "new < length s \<Longrightarrow> orig \<noteq> new \<Longrightarrow> length (keyStep s orig new i ! new) = length (s ! new)"
  by (simp add: keyStep_new wr_def)

lemma keyStep_below:
  "new < length s \<Longrightarrow> orig \<noteq> new \<Longrightarrow> k < i \<Longrightarrow> keyStep s orig new i ! new ! k = s ! new ! k"
  by (simp add: keyStep_new wr_def)

lemma keyStep_quad:
  "new < length s \<Longrightarrow> orig \<noteq> new \<Longrightarrow> i + 3 < length (s ! orig) \<Longrightarrow>
   length (s ! new) = length (s ! orig) \<Longrightarrow>
   quad (keyStep s orig new i ! new) i = keyedPixel (quad (s ! orig) i)"
  by (simp add: keyStep_new wr_def rd_def lt_def quad_def keyedPixel_def)

lemma keyLoop_below:
  "new < length s \<Longrightarrow> orig \<noteq> new \<Longrightarrow> k < i \<Longrightarrow> keyLoop s orig new i ! new ! k = s ! new ! k"
proof (induction s orig new i rule: keyLoop.induct)
  case (1 s orig new i)
  show ?case
  proof (cases "i < length (s ! orig)")
    case True
    have "keyLoop s orig new i ! new ! k = keyLoop (keyStep s orig new i) orig new (i + 4) ! new ! k"
      using True by (subst keyLoop.simps) simp
    also have "\<dots> = keyStep s orig new i ! new ! k"
      using "1.IH" [OF True] "1.prems" by (simp add: length_keyStep)
    also have "\<dots> = s ! new ! k"
      using "1.prems" by (simp add: keyStep_below)
    finally show ?thesis .
  next
    case False
    then show ?thesis by (subst keyLoop.simps) simp
  qed
qed

lemma keyLoop_quad:
  "new < length s \<Longrightarrow> orig \<noteq> new \<Longrightarrow> i \<le> j \<Longrightarrow> 4 dvd (j - i) \<Longrightarrow>
   j + 3 < length (s ! orig) \<Longrightarrow> length (s ! new) = length (s ! orig) \<Longrightarrow>
   quad (keyLoop s orig new i ! new) j = keyedPixel (quad (s ! orig) j)"
proof (induction s orig new i rule: keyLoop.induct)
  case (1 s orig new i)
  let ?t = "keyStep s orig new i"
  have lt: "i < length (s ! orig)" using "1.prems" by simp
  have unfold: "keyLoop s orig new i = keyLoop ?t orig new (i + 4)"
    using lt by (subst keyLoop.simps) simp
  have orig: "?t ! orig = s ! orig"
    using "1.prems" by (simp add: keyStep_other)
  show ?case
  proof (cases "i = j")
    case True
    have "quad (keyLoop ?t orig new (i + 4) ! new) j = quad (?t ! new) j"
      using "1.prems" True by (simp add: quad_def keyLoop_below length_keyStep)
    also have "\<dots> = keyedPixel (quad (s ! orig) j)"
      using "1.prems" True by (simp add: keyStep_quad)
    finally show ?thesis by (simp add: unfold)
  next
    case False
    with "1.prems" have a: "i + 4 \<le> j" and b: "4 dvd (j - (i + 4))" by presburger+
    have "quad (keyLoop ?t orig new (i + 4) ! new) j = keyedPixel (quad (?t ! orig) j)"
      using "1.prems" a b orig
      by (intro "1.IH" [OF lt]) (simp_all add: length_keyStep length_keyStep_new)
    then show ?thesis by (simp add: unfold orig)
  qed
qed

lemma magentaKey_pixel:
  assumes "orig < length s" and "4 * p + 3 < length (s ! orig)"
  shows "pixelAt (fst (magentaKey s orig) ! snd (magentaKey s orig)) p
         = keyedPixel (pixelAt (s ! orig) p)"
proof -
  let ?s1 = "s @ [replicate (length (s ! orig)) 0]"
  have "quad (keyLoop ?s1 orig (length s) 0 ! length s) (4 * p)
          = keyedPixel (quad (?s1 ! orig) (4 * p))"
    using assms by (intro keyLoop_quad) (simp_all add: nth_append)
  then show ?thesis
    using assms by (simp add: magentaKey_def alloc_def nth_append pixelAt_def)
qed

lemma magentaKey_old:
  "a < length s \<Longrightarrow> fst (magentaKey s orig) ! a = s ! a"
  by (simp add: magentaKey_def alloc_def keyLoop_other nth_append)

lemma length_magentaKey: "length (fst (magentaKey s orig)) = Suc (length s)"
  by (simp add: magentaKey_def alloc_def length_keyLoop)

lemma snd_magentaKey: "snd (magentaKey s orig) = length s"
  by (simp add: magentaKey_def alloc_def)

lemma addFrames_skip:
  "\<not> keyable frame \<Longrightarrow> addFrames ops s (frame # frames) fps = addFrames ops s frames fps"
  by (auto simp: keyable_def split: option.splits)

lemma addFrames_key:
  assumes "keyable frame" and "pixelBuffer frame = Some orig"
  shows "addFrames ops s (frame # frames) fps =
     (fst (addFrames ops (fst (magentaKey s orig)) frames fps),
      (length s, orZero (width frame), orZero (height frame), quot ops (num ops 1000) fps)
        # snd (addFrames ops (fst (magentaKey s orig)) frames fps))"
proof -
  obtain sm where m: "magentaKey s orig = (sm, length s)"
    by (metis prod.collapse snd_magentaKey)
  obtain s2 added where r: "addFrames ops sm frames fps = (s2, added)"
    by (cases "addFrames ops sm frames fps")
  show ?thesis
    using assms m r by (simp add: keyable_def)
qed

declare addFrames.simps(2) [simp del]

lemma addFrames_extends:
  "addFrames ops s frames fps = (s', added) \<Longrightarrow>
   length s \<le> length s' \<and> (\<forall>a < length s. s' ! a = s ! a)"
proof (induction frames arbitrary: s s' added)
  case Nil
  then show ?case by simp
next
  case (Cons frame frames)
  show ?case
  proof (cases "keyable frame")
    case False
    then have "addFrames ops s frames fps = (s', added)"
      using Cons.prems by (simp add: addFrames_skip)
    then show ?thesis by (rule Cons.IH)
  next
    case True
    then obtain orig where orig: "pixelBuffer frame = Some orig"
      by (auto simp: keyable_def)
    obtain s2 added' where rest: "addFrames ops (fst (magentaKey s orig)) frames fps = (s2, added')"
      by (cases "addFrames ops (fst (magentaKey s orig)) frames fps")
    have "s' = s2"
      using Cons.prems True orig rest by (simp add: addFrames_key)
    moreover have "length (fst (magentaKey s orig)) \<le> length s2
        \<and> (\<forall>a < length (fst (magentaKey s orig)). s2 ! a = fst (magentaKey s orig) ! a)"
      using rest by (rule Cons.IH)
    ultimately show ?thesis
      by (simp add: length_magentaKey magentaKey_old)
  qed
qed

lemma addFrames_pixels:
  "addFrames ops s frames fps = (s', added) \<Longrightarrow> buffersIn s frames \<Longrightarrow>
   length added = length (filter keyable frames) \<and>
   (\<forall>k < length (filter keyable frames). \<forall>p.
      4 * p + 3 < length (s ! bufferOf (filter keyable frames ! k)) \<longrightarrow>
      pixelAt (s' ! fst (added ! k)) p
        = keyedPixel (pixelAt (s ! bufferOf (filter keyable frames ! k)) p))"
proof (induction frames arbitrary: s s' added)
  case Nil
  then show ?case by simp
next
  case (Cons frame frames)
  show ?case
  proof (cases "keyable frame")
    case False
    with Cons.prems have "addFrames ops s frames fps = (s', added)" "buffersIn s frames"
      by (simp_all add: buffersIn_def addFrames_skip)
    then show ?thesis using Cons.IH False by simp
  next
    case True
    then obtain orig where orig: "pixelBuffer frame = Some orig"
      by (auto simp: keyable_def)
    let ?sm = "fst (magentaKey s orig)"
    obtain s2 added' where rest: "addFrames ops ?sm frames fps = (s2, added')"
      by (cases "addFrames ops ?sm frames fps")
    have res: "s' = s2" "added = (length s, orZero (width frame), orZero (height frame),
                 quot ops (num ops 1000) fps) # added'"
      using Cons.prems True orig rest by (simp_all add: addFrames_key)
    have valid: "orig < length s" "buffersIn s frames"
      using Cons.prems orig by (simp_all add: buffersIn_def)
    have valid': "buffersIn ?sm frames"
      using valid(2) by (auto simp: buffersIn_def length_magentaKey list_all_iff split: option.splits)
    note IH = Cons.IH [OF rest valid']
    have ext: "\<forall>a < length ?sm. s2 ! a = ?sm ! a"
      using addFrames_extends [OF rest] by simp
    have len: "length added = length (filter keyable (frame # frames))"
      using IH True res by simp
    have px: "pixelAt (s' ! fst (added ! k)) p
          = keyedPixel (pixelAt (s ! bufferOf (filter keyable (frame # frames) ! k)) p)"
      if k: "k < length (filter keyable (frame # frames))"
        and p: "4 * p + 3 < length (s ! bufferOf (filter keyable (frame # frames) ! k))" for k p
    proof (cases k)
      case 0
      have "s2 ! length s = ?sm ! length s"
        using ext by (simp add: length_magentaKey)
      moreover have "pixelAt (?sm ! length s) p = keyedPixel (pixelAt (s ! orig) p)"
        using magentaKey_pixel [of orig s p] valid(1) p True 0 orig
        by (simp add: snd_magentaKey bufferOf_def)
      ultimately show ?thesis
        using 0 True res orig by (simp add: bufferOf_def)
    next
      case (Suc k')
      let ?f = "filter keyable frames ! k'"
      have k': "k' < length (filter keyable frames)"
        using k True Suc by simp
      then have "?f \<in> set frames"
        using nth_mem [OF k'] by auto
      then have "bufferOf ?f < length s \<or> pixelBuffer ?f = None"
        using valid(2) by (auto simp: buffersIn_def list_all_iff bufferOf_def split: option.splits)
      moreover have "keyable ?f"
        using nth_mem [OF k'] by auto
      ultimately have b: "bufferOf ?f < length s"
        by (auto simp: keyable_def)
      then have same: "?sm ! bufferOf ?f = s ! bufferOf ?f"
        by (simp add: magentaKey_old)
      have "pixelAt (s2 ! fst (added' ! k')) p = keyedPixel (pixelAt (?sm ! bufferOf ?f) p)"
        using IH k' p True Suc same by simp
      then show ?thesis
        using Suc True res same by simp
    qed
    show ?thesis using len px by blast
  qed
qed


lemma createGif_store:
  "fst (createGif env ops s frames fps) = s \<or>
   fst (createGif env ops s frames fps) = fst (addFrames ops s frames fps)"
  by (simp add: createGif_def Let_def split: option.splits sum.splits list.splits)

lemma createApng_same_buffers:
  assumes "buffersIn s frames" and "\<forall>a < length s. s' ! a = s ! a"
  shows "createApng env ops s' frames fps = createApng env ops s frames fps"
proof -
  have "a < length s" if "a \<in> set (frameBuffers frames)" for a
    using that assms(1)
    by (auto simp: frameBuffers_def buffersIn_def list_all_iff split: option.splits)
  then have eq: "map (\<lambda>a. s' ! a) (frameBuffers frames) = map (\<lambda>a. s ! a) (frameBuffers frames)"
    using assms(2) by simp
  show ?thesis
    unfolding createApng_def Let_def by (simp only: eq)
qed

text \<open>
  Claim C1. For every frame that \<open>createGif\<close> hands to the GIF encoder (the \<open>k\<close>-th
  frame with a pixel buffer and a width and height other than 0) and every pixel \<open>p\<close>
  of it, with samples \<open>(r, g, b, a)\<close> in the frame's buffer: the pixel the encoder gets
  is exactly \<open>(255, 0, 255, 255)\<close> when \<open>a < 128\<close>, and \<open>(r, g, b, 255)\<close> when
  \<open>a \<ge> 128\<close>, whatever the colour is, so in particular when all of \<open>r\<close>, \<open>g\<close>,
  \<open>b\<close> are below 240.
\<close>

theorem createGif_chroma_key:
  assumes "buffersIn s frames"
    and "k < length (filter keyable frames)"
    and "4 * p + 3 < length (s ! bufferOf (filter keyable frames ! k))"
    and "pixelAt (s ! bufferOf (filter keyable frames ! k)) p = (r, g, b, a)"
  shows "k < length (gifFrames ops s frames fps) \<and>
         pixelAt (fst (gifFrames ops s frames fps ! k)) p
           = (if a < 128 then (255, 0, 255, 255) else (r, g, b, 255))"
proof -
  obtain s1 added where r: "addFrames ops s frames fps = (s1, added)"
    by (cases "addFrames ops s frames fps")
  note px = addFrames_pixels [OF r assms(1)]
  have len: "k < length added" using px assms(2) by simp
  have "pixelAt (s1 ! fst (added ! k)) p
          = keyedPixel (pixelAt (s ! bufferOf (filter keyable frames ! k)) p)"
    using px assms(2,3) by blast
  moreover have "fst (gifFrames ops s frames fps ! k) = s1 ! fst (added ! k)"
    using len r by (simp add: gifFrames_def split_beta)
  ultimately show ?thesis
    using len r assms(4) by (simp add: gifFrames_def keyedPixel_def)
qed

theorem createGif_chroma_key_witness:
  "pixelAt (fst (gifFrames natOps [twoPixelData] [twoPixels] 8 ! 0)) 0
     = (255, 0, 255, 255) \<and>
   pixelAt (fst (gifFrames natOps [twoPixelData] [twoPixels] 8 ! 0)) 1
     = (250, 250, 250, 255)"
  using createGif_chroma_key [of "[twoPixelData]" "[twoPixels]" 0 0
          1 2 3 127 natOps 8]
        createGif_chroma_key [of "[twoPixelData]" "[twoPixels]" 0 1
          250 250 250 128 natOps 8]
  by (simp add: buffersIn_def keyable_def truthy_def bufferOf_def pixelAt_def quad_def
      twoPixels_def twoPixelData_def)

text \<open>
  Claim C9. \<open>createGif\<close> writes to newly allocated buffers only: every buffer of the
  store it starts from holds the same bytes afterwards, in every outcome. So
  \<open>createApng\<close> over the same frames gives the same result after \<open>createGif\<close> as
  before it (and \<open>createApng\<close> itself does not change the store).
\<close>

theorem createGif_keeps_buffers:
  assumes "createGif env ops s frames fps = (s', result)"
  shows "length s \<le> length s' \<and> (\<forall>a < length s. s' ! a = s ! a) \<and>
         (buffersIn s frames \<longrightarrow>
            createApng env ops s' frames fps' = createApng env ops s frames fps')"
proof -
  have ext: "length s \<le> length s' \<and> (\<forall>a < length s. s' ! a = s ! a)"
  proof -
    from createGif_store [of env ops s frames fps] assms
    consider "s' = s" | "s' = fst (addFrames ops s frames fps)" by auto
    then show ?thesis
    proof cases
      case 1
      then show ?thesis by simp
    next
      case 2
      then have "addFrames ops s frames fps = (s', snd (addFrames ops s frames fps))" by simp
      then show ?thesis by (rule addFrames_extends)
    qed
  qed
  then show ?thesis
    using createApng_same_buffers [of s frames s' env ops fps'] by blast
qed

theorem createGif_keeps_buffers_witness:
  "fst (createGif echoEnv natOps [twoPixelData] [twoPixelsB] 8) ! 0
     = twoPixelData \<and>
   createApng echoEnv natOps
     (fst (createGif echoEnv natOps [twoPixelData] [twoPixelsB] 8))
     [twoPixelsB] 8
   = Inr [twoPixelData]"
  using createGif_keeps_buffers [of echoEnv natOps "[twoPixelData]"
          "[twoPixelsB]" 8
          "fst (createGif echoEnv natOps [twoPixelData] [twoPixelsB] 8)"
          "snd (createGif echoEnv natOps [twoPixelData] [twoPixelsB] 8)"
          8]
  by (simp add: buffersIn_def twoPixelsB_def createApng_def echoEnv_def frameBuffers_def
      orZero_def natOps_def)

section \<open>The normalizer: dropped frames, indices, placement, the crop\<close>

lemma length_scanStep: "length (data (scanStep cw ch i s)) = length (data s)"
  by (simp add: scanStep_def Let_def wr_def)

lemma scanStep_data: "k \<noteq> i + 3 \<Longrightarrow> data (scanStep cw ch i s) ! k = data s ! k"
  by (simp add: scanStep_def Let_def wr_def)

lemma scanStep_rd: "k \<noteq> i + 3 \<Longrightarrow> rd (data (scanStep cw ch i s)) k = rd (data s) k"
  by (simp add: rd_def length_scanStep scanStep_data)

lemma scanStep_cleared:
  "cleared cw ch (data s) i \<Longrightarrow> foundPixel (scanStep cw ch i s) = foundPixel s"
  by (auto simp: cleared_def safetyCropped_def scanStep_def Let_def)

lemma cleared_scanStep:
  "i + 4 \<le> j \<Longrightarrow> cleared cw ch (data (scanStep cw ch i s)) j = cleared cw ch (data s) j"
  by (simp add: cleared_def scanStep_rd)

lemma scanLoop_cleared:
  "\<forall>j. i \<le> j \<and> 4 dvd (j - i) \<and> j < length (data s) \<longrightarrow> cleared cw ch (data s) j \<Longrightarrow>
   foundPixel (scanLoop cw ch i s) = foundPixel s"
proof (induction cw ch i s rule: scanLoop.induct)
  case (1 cw ch i s)
  show ?case
  proof (cases "i < length (data s)")
    case True
    have here: "cleared cw ch (data s) i"
      using "1.prems" True by simp
    have later: "\<forall>j. i + 4 \<le> j \<and> 4 dvd (j - (i + 4)) \<and> j < length (data (scanStep cw ch i s))
        \<longrightarrow> cleared cw ch (data (scanStep cw ch i s)) j"
    proof (intro allI impI)
      fix j
      assume j: "i + 4 \<le> j \<and> 4 dvd (j - (i + 4)) \<and> j < length (data (scanStep cw ch i s))"
      then have "i \<le> j" "4 dvd (j - i)" "j < length (data s)"
        by (presburger, presburger, simp add: length_scanStep)
      then have "cleared cw ch (data s) j" using "1.prems" by blast
      then show "cleared cw ch (data (scanStep cw ch i s)) j"
        using j by (simp add: cleared_scanStep)
    qed
    have "foundPixel (scanLoop cw ch i s) = foundPixel (scanLoop cw ch (i + 4) (scanStep cw ch i s))"
      using True by (subst scanLoop.simps) simp
    also have "\<dots> = foundPixel (scanStep cw ch i s)"
      using "1.IH" [OF True later] .
    also have "\<dots> = foundPixel s"
      using here by (rule scanStep_cleared)
    finally show ?thesis .
  next
    case False
    then show ?thesis by (subst scanLoop.simps) simp
  qed
qed

lemma background_cleared:
  assumes "wellFormed img"
    and "\<forall>p < naturalWidth img * naturalHeight img.
           \<not> safetyCropped (naturalWidth img) (naturalHeight img) p \<longrightarrow>
           background (pixelAt (pixels img) p)"
    and "4 dvd j" and "j < length (pixels img)"
  shows "cleared (naturalWidth img) (naturalHeight img) (pixels img) j"
proof -
  obtain p where p: "j = 4 * p" using assms(3) by (auto simp: dvd_def)
  have len: "length (pixels img) = 4 * (naturalWidth img * naturalHeight img)"
    using assms(1) by (simp add: wellFormed_def)
  have pl: "p < naturalWidth img * naturalHeight img" using assms(4) p len by simp
  show ?thesis
  proof (cases "safetyCropped (naturalWidth img) (naturalHeight img) p")
    case True
    then show ?thesis by (simp add: cleared_def p)
  next
    case False
    then have "background (pixelAt (pixels img) p)" using assms(2) pl by blast
    moreover have "4 * p + 2 < length (pixels img)" using pl len by simp
    ultimately show ?thesis
      by (simp add: cleared_def p background_def pixelAt_def quad_def gt_def rd_def)
  qed
qed

lemma background_dropped:
  assumes "wellFormed img"
    and "\<forall>p < naturalWidth img * naturalHeight img.
           \<not> safetyCropped (naturalWidth img) (naturalHeight img) p \<longrightarrow>
           background (pixelAt (pixels img) p)"
  shows "processFrameData env img = None"
proof -
  let ?s0 = "\<lparr>data = pixels img, minX = naturalWidth img, minY = naturalHeight img,
              maxX = 0, maxY = 0, foundPixel = False\<rparr>"
  have "\<forall>j. 0 \<le> j \<and> 4 dvd (j - 0) \<and> j < length (data ?s0) \<longrightarrow>
          cleared (naturalWidth img) (naturalHeight img) (data ?s0) j"
    using background_cleared [OF assms] by simp
  then have "foundPixel (scanLoop (naturalWidth img) (naturalHeight img) 0 ?s0) = foundPixel ?s0"
    by (rule scanLoop_cleared)
  then show ?thesis
    by (simp add: processFrameData_def Let_def)
qed

lemma blank_dropped:
  assumes "wellFormed img" and "blank img"
  shows "processFrameData env img = None"
proof -
  have "\<forall>p < naturalWidth img * naturalHeight img.
           \<not> safetyCropped (naturalWidth img) (naturalHeight img) p \<longrightarrow>
           background (pixelAt (pixels img) p)"
    using assms(2) by (auto simp: blank_def list_all_iff)
  with assms(1) show ?thesis by (rule background_dropped)
qed

lemma safetyCropped_edgePixel: "safetyCropped cw ch p \<Longrightarrow> edgePixel cw ch p"
  by (auto simp: safetyCropped_def edgePixel_def)

lemma onload_cases:
  assumes "onload env ops tw th zoom i img s frames = (s1, frames1)"
    and "loadImage env url = Some img"
  shows "(\<exists>extra. s1 = s @ extra) \<and>
         (frames1 = frames \<or>
          (\<exists>f. frames1 = frames @ [f] \<and> frameOf env ops tw th zoom s1 i url f))"
proof (cases "processFrameData env img")
  case None
  then show ?thesis using assms(1) by (simp add: onload_def)
next
  case (Some p)
  let ?px = "drawImage env tw th (placeFrame ops tw th zoom p)"
  show ?thesis
  proof (cases "context2d env tw th")
    case False
    then show ?thesis using assms(1) Some by (simp add: onload_def)
  next
    case True
    show ?thesis
    proof (cases "toBlob env tw th ?px")
      case None
      then show ?thesis
        using assms(1) Some True by (auto simp: onload_def alloc_def Let_def)
    next
      case (Some b)
      let ?f = "\<lparr>blob = b, dataUrl = createObjectURL env b, index = i,
                 pixelBuffer = Some (length s), width = Some tw, height = Some th\<rparr>"
      have res: "s1 = s @ [?px]" "frames1 = frames @ [?f]"
        using assms(1) \<open>processFrameData env img = Some p\<close> True Some
        by (simp_all add: onload_def alloc_def Let_def)
      have "frameOf env ops tw th zoom s1 i url ?f"
        using assms(2) \<open>processFrameData env img = Some p\<close>
        by (simp add: frameOf_def rendered_def res)
      then show ?thesis using res by blast
    qed
  qed
qed

lemma frameOf_extend:
  "frameOf env ops tw th zoom s i url f \<Longrightarrow> frameOf env ops tw th zoom (s @ extra) i url f"
  by (auto simp: frameOf_def nth_append split: option.splits)

lemma subseq_mem: "x \<in> set xs \<Longrightarrow> subseq xs ys \<Longrightarrow> x \<in> set ys"
  using list_emb_set [of "(=)" xs ys x] by auto

lemma framesFrom_frames:
  "framesFrom env ops tw th zoom i urls s frames = (s', out) \<Longrightarrow>
   \<exists>extra new. s' = s @ extra \<and> out = frames @ new \<and>
     subseq (map index new) [i ..< i + length urls] \<and>
     (\<forall>f \<in> set new. frameOf env ops tw th zoom s' (index f) (urls ! (index f - i)) f)"
proof (induction urls arbitrary: i s frames)
  case Nil
  then show ?case by simp
next
  case (Cons url urls)
  have upt: "[i ..< i + length (url # urls)] = i # [i + 1 ..< (i + 1) + length urls]"
    by (simp add: upt_rec)
  show ?case
  proof (cases "loadImage env url")
    case None
    then have "framesFrom env ops tw th zoom (i + 1) urls s frames = (s', out)"
      using Cons.prems by simp
    from Cons.IH [OF this] obtain extra new where
      new: "s' = s @ extra" "out = frames @ new"
        "subseq (map index new) [i + 1 ..< (i + 1) + length urls]"
        "\<forall>f \<in> set new. frameOf env ops tw th zoom s' (index f) (urls ! (index f - (i + 1))) f"
      by blast
    have ge: "i + 1 \<le> index f" if "f \<in> set new" for f
    proof -
      have "index f \<in> set (map index new)" using that by simp
      then have "index f \<in> set [i + 1 ..< (i + 1) + length urls]"
        using new(3) by (rule subseq_mem)
      then show ?thesis unfolding set_upt by simp
    qed
    have "frameOf env ops tw th zoom s' (index f) ((url # urls) ! (index f - i)) f"
      if "f \<in> set new" for f
    proof -
      have "(url # urls) ! (index f - i) = urls ! (index f - (i + 1))"
        using ge [OF that] by (simp add: nth_Cons')
      then show ?thesis using new(4) that by simp
    qed
    then show ?thesis
      using new(1,2,3) unfolding upt by (intro exI [of _ extra] exI [of _ new]) auto
  next
    case (Some img)
    obtain s1 frames1 where ol: "onload env ops tw th zoom i img s frames = (s1, frames1)"
      by (cases "onload env ops tw th zoom i img s frames")
    then have rest: "framesFrom env ops tw th zoom (i + 1) urls s1 frames1 = (s', out)"
      using Cons.prems Some by simp
    from Cons.IH [OF rest] obtain extra new where
      new: "s' = s1 @ extra" "out = frames1 @ new"
        "subseq (map index new) [i + 1 ..< (i + 1) + length urls]"
        "\<forall>f \<in> set new. frameOf env ops tw th zoom s' (index f) (urls ! (index f - (i + 1))) f"
      by blast
    have ge: "i + 1 \<le> index f" if "f \<in> set new" for f
    proof -
      have "index f \<in> set (map index new)" using that by simp
      then have "index f \<in> set [i + 1 ..< (i + 1) + length urls]"
        using new(3) by (rule subseq_mem)
      then show ?thesis unfolding set_upt by simp
    qed
    have tail: "frameOf env ops tw th zoom s' (index f) ((url # urls) ! (index f - i)) f"
      if "f \<in> set new" for f
    proof -
      have "(url # urls) ! (index f - i) = urls ! (index f - (i + 1))"
        using ge [OF that] by (simp add: nth_Cons')
      then show ?thesis using new(4) that by simp
    qed
    from onload_cases [OF ol Some] obtain extra1 where s1: "s1 = s @ extra1" by blast
    from onload_cases [OF ol Some]
    consider "frames1 = frames"
      | f where "frames1 = frames @ [f]" "frameOf env ops tw th zoom s1 i url f"
      by blast
    then show ?thesis
    proof cases
      case 1
      show ?thesis
        using new(1,2,3) tail s1 1 unfolding upt
        by (intro exI [of _ "extra1 @ extra"] exI [of _ new]) auto
    next
      case 2
      have fi: "index f = i" using 2(2) by (simp add: frameOf_def)
      have "frameOf env ops tw th zoom s' i url f"
        using 2(2) new(1) by (simp add: frameOf_extend)
      then have head: "frameOf env ops tw th zoom s' (index f) ((url # urls) ! (index f - i)) f"
        by (simp add: fi)
      show ?thesis
        using new(1,2,3) tail head s1 2(1) fi unfolding upt
        by (intro exI [of _ "extra1 @ extra"] exI [of _ "f # new"]) auto
    qed
  qed
qed

lemma subseq_sorted_wrt: "subseq xs ys \<Longrightarrow> sorted_wrt R ys \<Longrightarrow> sorted_wrt R xs"
proof (induction rule: list_emb.induct)
  case (list_emb_Cons2 x y xs ys)
  then show ?case by (auto dest: subseq_mem)
qed simp_all

lemma rendered_Some:
  "rendered env ops tw th zoom url = Some px \<Longrightarrow>
   \<exists>img p. loadImage env url = Some img \<and> processFrameData env img = Some p \<and>
           px = drawImage env tw th (placeFrame ops tw th zoom p)"
  by (auto simp: rendered_def split: option.splits)

lemma processGeneratedFrames_frames:
  assumes "processGeneratedFrames env ops s imageUrls tw th zoom = (s', frames)"
    and "frame \<in> set frames"
  shows "index frame < length imageUrls \<and>
         frameOf env ops tw th zoom s' (index frame) (imageUrls ! index frame) frame"
proof -
  from framesFrom_frames [OF assms(1) [unfolded processGeneratedFrames_def]]
  have sub: "subseq (map index frames) [0 ..< 0 + length imageUrls]"
    and fr: "\<forall>f \<in> set frames. frameOf env ops tw th zoom s' (index f) (imageUrls ! (index f - 0)) f"
    by auto
  have "index frame \<in> set (map index frames)" using assms(2) by simp
  then have "index frame \<in> set [0 ..< 0 + length imageUrls]"
    using sub by (rule subseq_mem)
  then show ?thesis using fr assms(2) by simp
qed

text \<open>
  Claim C4, as stated, fails on the code: background removal clears a pixel only when
  each of R, G and B is strictly greater than 240. A 2 by 2 frame whose pixels are all
  \<open>(240, 240, 240, 255)\<close> lies within 240 to 255 on every channel, yet none of its
  pixels is cleared, and the frame is kept.
\<close>

theorem threshold_240_kept:
  "processFrameData plainCanvas (uniform 2 2 240 240 240 255) \<noteq> None \<and>
   map index (snd (processGeneratedFrames plainCanvas natOps [] [uniform 2 2 240 240 240 255] 2 2 1)) = [0]"
  by code_simp

text \<open>
  Claim C4, amended. A decoded frame in which all of R, G and B are strictly greater
  than 240 at every pixel, except at pixels that lie in the 5% border and that the
  safety crop clears, has no surviving pixel: \<open>processFrameData\<close> returns \<open>null\<close> for
  it, and the normalizer emits no frame with its index, so no scale is computed for it.
  Nothing is said here of a frame with another pixel in the last column or row that the
  border has and the safety crop does not clear.
\<close>

theorem blank_frame_dropped:
  assumes "wellFormed img" and "blank img"
    and "j < length imageUrls" and "loadImage env (imageUrls ! j) = Some img"
  shows "processFrameData env img = None \<and>
         j \<notin> set (map index (snd (processGeneratedFrames env ops s imageUrls tw th zoom)))"
proof -
  have none: "processFrameData env img = None"
    using assms(1,2) by (rule blank_dropped)
  have "index f \<noteq> j"
    if "f \<in> set (snd (processGeneratedFrames env ops s imageUrls tw th zoom))" for f
  proof
    assume j: "index f = j"
    have "frameOf env ops tw th zoom (fst (processGeneratedFrames env ops s imageUrls tw th zoom))
            (index f) (imageUrls ! index f) f"
      using processGeneratedFrames_frames [of env ops s imageUrls tw th zoom _ _ f] that
      by (simp add: prod_eq_iff)
    then obtain px where "rendered env ops tw th zoom (imageUrls ! j) = Some px"
      using j by (auto simp: frameOf_def split: option.splits)
    from rendered_Some [OF this] show False
      using assms(4) none by auto
  qed
  then show ?thesis using none by auto
qed

theorem blank_frame_dropped_witness:
  "wellFormed inkAtLeftBorder \<and> blank inkAtLeftBorder \<and>
   processFrameData plainCanvas inkAtLeftBorder = None \<and>
   0 \<notin> set (map index (snd (processGeneratedFrames plainCanvas natOps []
                               [inkAtLeftBorder] 20 1 1)))"
proof -
  have wf: "wellFormed inkAtLeftBorder" by code_simp
  have bl: "blank inkAtLeftBorder" by code_simp
  have len: "0 < length [inkAtLeftBorder]" by simp
  have ld: "loadImage plainCanvas ([inkAtLeftBorder] ! 0) = Some inkAtLeftBorder"
    by (simp add: plainCanvas_def)
  show ?thesis
    using wf bl blank_frame_dropped [OF wf bl len ld, where ops = natOps and s = "[]"
        and tw = 20 and th = 1 and zoom = 1]
    by simp
qed

text \<open>
  The column the safety crop does not clear: in a white frame 20 wide and 1 high, the
  pixel of the last column lies in the border, the scan does not clear it, and ink
  there makes the frame survive, with a crop 0 wide and 0 high.
\<close>

lemma right_border_ink_kept:
  "edgePixel 20 1 19 \<and> \<not> safetyCropped 20 1 19 \<and>
   map_option (\<lambda>p. (charWidth p, charHeight p)) (processFrameData plainCanvas inkAtRightBorder)
     = Some (0, 0)"
  by code_simp

lemma onload_index:
  assumes "loadImage env url = Some img"
  shows "map index (snd (onload env ops tw th zoom i img s frames))
           = map index frames @ (if kept env ops tw th zoom url then [i] else [])"
proof (cases "processFrameData env img")
  case None
  then show ?thesis using assms by (simp add: onload_def kept_def)
next
  case (Some p)
  then show ?thesis
    using assms
    by (cases "toBlob env tw th (drawImage env tw th (placeFrame ops tw th zoom p))")
       (simp_all add: onload_def kept_def alloc_def Let_def)
qed

lemma framesFrom_index:
  "map index (snd (framesFrom env ops tw th zoom i urls s frames))
     = map index frames @
       map fst (filter (\<lambda>(k, url). kept env ops tw th zoom url) (enumerate i urls))"
proof (induction urls arbitrary: i s frames)
  case Nil
  then show ?case by simp
next
  case (Cons url urls)
  show ?case
  proof (cases "loadImage env url")
    case None
    then have "\<not> kept env ops tw th zoom url" by (simp add: kept_def)
    then show ?thesis using None Cons.IH [of "Suc i" s frames] by simp
  next
    case (Some img)
    obtain s1 frames1 where ol: "onload env ops tw th zoom i img s frames = (s1, frames1)"
      by (cases "onload env ops tw th zoom i img s frames")
    have "map index frames1
            = map index frames @ (if kept env ops tw th zoom url then [i] else [])"
      using onload_index [OF Some, of ops tw th zoom i s frames] ol by simp
    then show ?thesis
      using Some ol Cons.IH [of "Suc i" s1 frames1] by simp
  qed
qed

lemma enumerate_filter_nth:
  "map fst (filter (\<lambda>(k, x). P x) (enumerate i xs))
     = filter (\<lambda>k. P (xs ! (k - i))) [i ..< i + length xs]"
proof (induction xs arbitrary: i)
  case Nil
  then show ?case by simp
next
  case (Cons x xs)
  have "filter (\<lambda>k. P ((x # xs) ! (k - i))) [Suc i ..< Suc i + length xs]
          = filter (\<lambda>k. P (xs ! (k - Suc i))) [Suc i ..< Suc i + length xs]"
    by (rule filter_cong) (auto simp: nth_Cons')
  moreover have "[i ..< i + length (x # xs)] = i # [Suc i ..< Suc i + length xs]"
    by (simp add: upt_rec)
  ultimately show ?case
    using Cons.IH [of "Suc i"] by simp
qed

text \<open>
  Claim C5. For every list of \<open>N\<close> URLs, the indices of the frames the normalizer
  returns, in the order of the output, are exactly the slots \<open>i < N\<close> whose URL gives a
  frame, in ascending order, and each frame is made from the URL of the slot that its
  index names: a dropped frame leaves a gap and the survivors keep the numbers of their
  slots. So there are at most \<open>N\<close> frames, and their indices are a subsequence of
  \<open>0, \<dots>, N - 1\<close>, strictly ascending.
\<close>

theorem normalizer_indices:
  assumes "processGeneratedFrames env ops s imageUrls targetWidth targetHeight zoom = (s', frames)"
  shows "map index frames
           = filter (\<lambda>i. kept env ops targetWidth targetHeight zoom (imageUrls ! i))
               [0 ..< length imageUrls] \<and>
         (\<forall>frame \<in> set frames.
            frameOf env ops targetWidth targetHeight zoom s' (index frame)
              (imageUrls ! index frame) frame) \<and>
         length frames \<le> length imageUrls \<and>
         subseq (map index frames) [0 ..< length imageUrls] \<and>
         sorted_wrt (<) (map index frames)"
proof -
  have "map index frames
          = map fst (filter (\<lambda>(k, url). kept env ops targetWidth targetHeight zoom url)
                       (enumerate 0 imageUrls))"
    using framesFrom_index [of env ops targetWidth targetHeight zoom 0 imageUrls s "[]"] assms
    by (simp add: processGeneratedFrames_def)
  then have slots: "map index frames
          = filter (\<lambda>i. kept env ops targetWidth targetHeight zoom (imageUrls ! i))
              [0 ..< length imageUrls]"
    using enumerate_filter_nth
      [of "kept env ops targetWidth targetHeight zoom" 0 imageUrls]
    by simp
  have sub: "subseq (map index frames) [0 ..< length imageUrls]"
    unfolding slots by (rule subseq_filter_left)
  have len: "length frames \<le> length imageUrls"
    using list_emb_length [OF sub] by simp
  have srt: "sorted_wrt (<) (map index frames)"
    using sub by (rule subseq_sorted_wrt) simp
  have own: "\<forall>frame \<in> set frames.
      frameOf env ops targetWidth targetHeight zoom s' (index frame)
        (imageUrls ! index frame) frame"
    using processGeneratedFrames_frames [OF assms] by blast
  show ?thesis
    by (intro conjI slots own len sub srt)
qed

theorem normalizer_indices_witness:
  "map index (snd (processGeneratedFrames plainCanvas natOps [] threeUrls 2 2 1)) = [0, 2] \<and>
   filter (\<lambda>i. kept plainCanvas natOps 2 2 1 (threeUrls ! i)) [0 ..< length threeUrls] = [0, 2] \<and>
   subseq [0, 2] [0 ..< length threeUrls]"
proof -
  have ev: "map index (snd (processGeneratedFrames plainCanvas natOps [] threeUrls 2 2 1)) = [0, 2]"
    by code_simp
  show ?thesis
    using ev normalizer_indices [of plainCanvas natOps "[]" threeUrls 2 2 1
        "fst (processGeneratedFrames plainCanvas natOps [] threeUrls 2 2 1)"
        "snd (processGeneratedFrames plainCanvas natOps [] threeUrls 2 2 1)"]
    by simp
qed

text \<open>
  Claim C3. Every frame the normalizer returns comes from a URL whose image survived
  \<open>processFrameData\<close> with a crop of \<open>charWidth\<close> by \<open>charHeight\<close>; it has the target
  width and height, and its pixel buffer is what the target-size canvas holds after the
  crop is drawn once, scaled on both axes by
  \<open>scale = (targetHeight * 0.85 * zoom) / charHeight\<close> and placed at
  \<open>((targetWidth - scaledWidth) / 2, (targetHeight - scaledHeight) / 2)\<close>. The
  arithmetic is that of the number operations, whatever they are.
\<close>

theorem normalizer_scale_and_center:
  assumes "processGeneratedFrames env ops s imageUrls targetWidth targetHeight zoom = (s', frames)"
    and "frame \<in> set frames"
  shows "\<exists>img p a.
           index frame < length imageUrls \<and>
           loadImage env (imageUrls ! index frame) = Some img \<and>
           processFrameData env img = Some p \<and>
           width frame = Some targetWidth \<and> height frame = Some targetHeight \<and>
           pixelBuffer frame = Some a \<and> a < length s' \<and>
           (let scale = quot ops (mul ops (mul ops (num ops targetHeight) (lit_0_85 ops)) zoom)
                          (num ops (charHeight p));
                scaledWidth = mul ops (num ops (charWidth p)) scale;
                scaledHeight = mul ops (num ops (charHeight p)) scale
            in s' ! a =
                 drawImage env targetWidth targetHeight
                   \<lparr>src = charCanvas p, sWidth = charWidth p, sHeight = charHeight p,
                    dx = quot ops (sub ops (num ops targetWidth) scaledWidth) (num ops 2),
                    dy = quot ops (sub ops (num ops targetHeight) scaledHeight) (num ops 2),
                    dWidth = scaledWidth, dHeight = scaledHeight\<rparr>)"
proof -
  from processGeneratedFrames_frames [OF assms]
  have lt: "index frame < length imageUrls"
    and fo: "frameOf env ops targetWidth targetHeight zoom s' (index frame)
               (imageUrls ! index frame) frame"
    by auto
  from fo obtain a where a: "pixelBuffer frame = Some a" "a < length s'"
      "rendered env ops targetWidth targetHeight zoom (imageUrls ! index frame) = Some (s' ! a)"
      "width frame = Some targetWidth" "height frame = Some targetHeight"
    by (auto simp: frameOf_def split: option.splits)
  from rendered_Some [OF a(3)] obtain img p where
    ip: "loadImage env (imageUrls ! index frame) = Some img" "processFrameData env img = Some p"
      "s' ! a = drawImage env targetWidth targetHeight (placeFrame ops targetWidth targetHeight zoom p)"
    by blast
  show ?thesis
    using lt a(1,2,4,5) ip by (simp add: placeFrame_def Let_def)
qed

theorem normalizer_scale_and_center_witness:
  "\<exists>p a. processFrameData plainCanvas (uniform 2 2 0 0 0 255) = Some p \<and>
     a < length (fst (processGeneratedFrames plainCanvas natOps [] twoUrls 2 2 1)) \<and>
     fst (processGeneratedFrames plainCanvas natOps [] twoUrls 2 2 1) ! a
       = drawImage plainCanvas 2 2
           \<lparr>src = charCanvas p, sWidth = charWidth p, sHeight = charHeight p,
            dx = (2 - charWidth p * (2 * 1 * 1 div charHeight p)) div 2,
            dy = (2 - charHeight p * (2 * 1 * 1 div charHeight p)) div 2,
            dWidth = charWidth p * (2 * 1 * 1 div charHeight p),
            dHeight = charHeight p * (2 * 1 * 1 div charHeight p)\<rparr>"
proof -
  have ev: "map index (snd (processGeneratedFrames plainCanvas natOps [] twoUrls 2 2 1)) = [1]"
    by code_simp
  then obtain frame where fr: "snd (processGeneratedFrames plainCanvas natOps [] twoUrls 2 2 1) = [frame]"
    and ix: "index frame = 1"
    by auto
  have mem: "frame \<in> set (snd (processGeneratedFrames plainCanvas natOps [] twoUrls 2 2 1))"
    using fr by simp
  have run: "processGeneratedFrames plainCanvas natOps [] twoUrls 2 2 1
      = (fst (processGeneratedFrames plainCanvas natOps [] twoUrls 2 2 1),
         snd (processGeneratedFrames plainCanvas natOps [] twoUrls 2 2 1))"
    by simp
  show ?thesis
    using normalizer_scale_and_center [OF run mem] ix
    by (auto simp: twoUrls_def plainCanvas_def natOps_def Let_def)
qed

text \<open>
  Claim C2 does not hold of the code. On the 4 by 4 image whose pixels with alpha above
  20 are the columns 1 and 2 of the rows 1 and 2, the bounds found are 1 and 2 on both
  axes, but the crop is taken at \<open>(1, 1)\<close> with width \<open>maxX - minX = 1\<close> and height
  \<open>maxY - minY = 1\<close>: it holds the pixel \<open>(1, 1)\<close> only, and the pixel number 10, at
  column 2 of row 2, which is opaque in the cleaned data, lies outside it.
\<close>

theorem crop_excludes_last_row_and_column:
  "map_option (\<lambda>p. (cropX (charCanvas p), cropY (charCanvas p), charWidth p, charHeight p,
                     pixelAt (cleaned (charCanvas p)) 10))
     (processFrameData plainCanvas block4) = Some (1, 1, 1, 1, (0, 0, 0, 255))"
  by code_simp

text \<open>
  Claim C10 does not hold of the code. On the 3 by 3 image whose pixels with alpha above
  20 are the three pixels of row 1, the frame survives the bounding-box step with the
  crop width \<open>maxX - minX = 2\<close> and the crop height \<open>maxY - minY = 0\<close>, the number the
  scale is divided by.
\<close>

theorem single_row_zero_height:
  "map_option (\<lambda>p. (charWidth p, charHeight p)) (processFrameData plainCanvas row3) = Some (2, 0)"
  by code_simp

section \<open>The encoders without frames\<close>

text \<open>
  Claim C6, as stated, fails on the code: \<open>createZip\<close> does not look at the number of
  frames, and with the archive writer loaded it returns the archive of the empty folder.
\<close>

theorem createZip_without_frames:
  "createZip echoEnv [] = Inr []"
  by (simp add: createZip_def echoEnv_def)

text \<open>
  Claim C6, amended. Given no frames, \<open>createApng\<close> fails with an error (the missing
  library, else \<open>No frames to encode\<close>) and \<open>createGif\<close> fails with an error and
  leaves the store as it was; \<open>createZip\<close> fails only when the archive library is not
  loaded, and otherwise returns what the archive writer makes of the empty folder
  \<open>frames\<close>.
\<close>

theorem encoders_without_frames:
  "createApng env ops s [] fps
     = Inl (case UPNG env of None \<Rightarrow> Error ''UPNG library not loaded''
                           | Some encode \<Rightarrow> Error ''No frames to encode'') \<and>
   isl (snd (createGif env ops s [] fps)) \<and> fst (createGif env ops s [] fps) = s \<and>
   createZip env []
     = (case JSZip env of None \<Rightarrow> Inl (Error ''JSZip library not loaded'')
                        | Some generateAsync \<Rightarrow> generateAsync ''frames'' [])"
  by (simp add: createApng_def createGif_def createZip_def split: option.splits sum.splits)

theorem encoders_without_frames_witness:
  "createApng echoEnv natOps [] [] 8 = Inl (Error ''No frames to encode'') \<and>
   isl (snd (createGif echoEnv natOps [] [] 8)) \<and>
   createZip echoEnv [] = Inr []"
  using encoders_without_frames [of echoEnv natOps "[]" 8]
  by (simp add: echoEnv_def)

section \<open>The generator: all or nothing, and cancellation\<close>

lemma promiseAll_Inr: "promiseAll rs = Inr vs \<Longrightarrow> rs = map Inr vs"
  by (induction rs arbitrary: vs) (auto split: sum.splits)


lemma batches_result:
  fixes env :: "'u gemini_env"
  defines "gen \<equiv> (\<lambda>env imageBase64 mimeType prompt count j.
             generateSingleFrame env imageBase64 mimeType prompt j count)"
  assumes "batches env signal imageBase64 mimeType prompt count i k urls tr = (tr', Inr out)"
    and "urls = map (\<lambda>j. projr (gen env imageBase64 mimeType prompt count j)) [0 ..< min i count]"
    and "\<forall>j < min i count. \<not> isl (gen env imageBase64 mimeType prompt count j)"
  shows "out = map (\<lambda>j. projr (gen env imageBase64 mimeType prompt count j)) [0 ..< count] \<and>
         (\<forall>j < count. \<not> isl (gen env imageBase64 mimeType prompt count j))"
  using assms(2-)
proof (induction env signal imageBase64 mimeType prompt count i k urls tr
       rule: batches.induct)
  case (1 env signal imageBase64 mimeType prompt count i k urls tr)
  let ?g = "gen env imageBase64 mimeType prompt count"
  show ?case
  proof (cases "i < count")
    case False
    then have "out = urls"
      using "1.prems"(1) by (subst (asm) batches.simps) simp
    then show ?thesis using "1.prems"(2,3) False by (simp add: min_def)
  next
    case True
    let ?js = "[i ..< min (i + 3) count]"
    have na: "\<not> pollAborted signal k"
      using "1.prems"(1) True by (subst (asm) batches.simps) (auto split: if_splits)
    obtain batchResults where br: "promiseAll (map ?g ?js) = Inr batchResults"
      using "1.prems"(1) True na
      by (subst (asm) batches.simps) (auto simp: gen_def Let_def split: sum.splits)
    have na2: "\<not> pollAborted signal (k + 1)"
      using "1.prems"(1) True na br
      by (subst (asm) batches.simps) (auto simp: gen_def Let_def split: if_splits)
    have rec: "batches env signal imageBase64 mimeType prompt count (i + 3) (k + 2)
                 (urls @ batchResults) ((tr @ [Poll False] @ map Request ?js) @ [Poll False])
               = (tr', Inr out)"
      using "1.prems"(1) True na br na2
      by (subst (asm) batches.simps) (simp add: gen_def Let_def)
    have eq: "map ?g ?js = map Inr batchResults"
      using br by (rule promiseAll_Inr)
    have "map projr (map ?g ?js) = map projr (map (Inr :: 'u \<Rightarrow> error + 'u) batchResults)"
      by (simp only: eq)
    then have vals: "batchResults = map (\<lambda>j. projr (?g j)) ?js"
      by (simp add: comp_def)
    have ok: "\<not> isl (?g j)" if "j \<in> set ?js" for j
    proof -
      have "?g j \<in> set (map ?g ?js)" using that by (simp del: set_upt)
      then show ?thesis unfolding eq by auto
    qed
    define d where "d = min (i + 3) count - i"
    have d: "min (i + 3) count = i + d" "min i count = i"
      using True by (simp_all add: d_def min_def)
    have split: "[0 ..< min (i + 3) count] = [0 ..< min i count] @ ?js"
      unfolding d by (rule upt_add_eq_append) simp
    have urls': "urls @ batchResults
        = map (\<lambda>j. projr (?g j)) [0 ..< min (i + 3) count]"
      using "1.prems"(2) vals split by simp
    have all': "\<forall>j < min (i + 3) count. \<not> isl (?g j)"
    proof (intro allI impI)
      fix j assume "j < min (i + 3) count"
      then have "j < min i count \<or> j \<in> set ?js" using True by auto
      then show "\<not> isl (?g j)" using "1.prems"(3) ok by blast
    qed
    show ?thesis
      by (rule "1.IH" [OF True na refl refl br [unfolded gen_def] na2 rec urls' all'])
  qed
qed

text \<open>
  Claim C7. If the request of any frame fails, for whatever reason
  \<open>generateSingleFrame\<close> fails, then \<open>generateAnimationFrames\<close> fails; when it returns
  URLs, it returns the URL of every one of the \<open>count\<close> frames, in order, never a part
  of them.
\<close>

theorem generation_all_or_nothing:
  assumes "generateAnimationFrames env imageBase64 mimeType prompt count signal = (tr, result)"
  shows "((\<exists>j < count. isl (generateSingleFrame env imageBase64 mimeType prompt j count))
            \<longrightarrow> isl result) \<and>
         (\<forall>urls. result = Inr urls \<longrightarrow>
            urls = map (\<lambda>j. projr (generateSingleFrame env imageBase64 mimeType prompt j count))
                     [0 ..< count])"
proof (cases result)
  case (Inl e)
  then show ?thesis by simp
next
  case (Inr out)
  have "batches env signal imageBase64 mimeType prompt count 0 0 [] [] = (tr, Inr out)"
    using assms Inr by (simp add: generateAnimationFrames_def)
  from batches_result [OF this] show ?thesis using Inr by simp
qed

theorem generation_all_or_nothing_witness:
  "isl (generateSingleFrame refusingEnv [] [] ''walk'' 4 6) \<and>
   snd (generateAnimationFrames refusingEnv [] [] ''walk'' 6 None)
     = Inl (Error ''Model stopped generation: SAFETY'')"
proof -
  have ev: "snd (generateAnimationFrames refusingEnv [] [] ''walk'' 6 None)
              = Inl (Error ''Model stopped generation: SAFETY'')"
    by code_simp
  have fails: "isl (generateSingleFrame refusingEnv [] [] ''walk'' 4 6)"
    by code_simp
  show ?thesis
    using ev fails generation_all_or_nothing [of refusingEnv "[]" "[]" "''walk''" 6 None
        "fst (generateAnimationFrames refusingEnv [] [] ''walk'' 6 None)"
        "snd (generateAnimationFrames refusingEnv [] [] ''walk'' 6 None)"]
    by simp
qed


















end
